theory Spec2Isabelle
  imports Main "HOL-Library.Word" "HOL-Library.Multiset"
begin

section \<open>Tasks of the background queue\<close>

text \<open>
  \<^verbatim>\<open>BackgroundQueue::Task\<close> (index/Background.h) holds the action \<^verbatim>\<open>Run\<close>, the thread
  priority \<^verbatim>\<open>ThreadPri\<close> with the default member initialiser
  \<^verbatim>\<open>llvm::ThreadPriority::Background\<close>, and \<^verbatim>\<open>unsigned QueuePri = 0\<close>. The action is
  an opaque \<^verbatim>\<open>std::function<void()>\<close>; the record is polymorphic in what stands for it.
  \<^verbatim>\<open>llvm::ThreadPriority\<close> is LLVM's two-valued enumeration. \<^verbatim>\<open>unsigned\<close> is a 32-bit
  word; the only numbers stored below are 0 and 1.
\<close>

datatype ThreadPriority = Background | Default

record 'f Task =
  Run :: 'f
  ThreadPri :: ThreadPriority
  QueuePri :: "32 word"

text \<open>
  The only constructor, \<^verbatim>\<open>explicit Task(Func &&F) : Run(std::forward<Func>(F))\<close>: the
  other two members keep their default initialisers.
\<close>

definition mkTask :: "'f \<Rightarrow> 'f Task" where
  "mkTask F = \<lparr>Run = F, ThreadPri = Background, QueuePri = 0\<rparr>"

text \<open>
  \<^verbatim>\<open>bool operator<(const Task &O) const { return QueuePri < O.QueuePri; }\<close>, an unsigned
  comparison.
\<close>

definition task_less :: "'f Task \<Rightarrow> 'f Task \<Rightarrow> bool" where
  "task_less T U = (QueuePri T < QueuePri U)"

text \<open>
  \<^verbatim>\<open>enum QueuePriority { IndexFile, LoadShards }\<close> of \<^verbatim>\<open>BackgroundIndex\<close>, "from lowest
  to highest priority". An unscoped enumeration numbers its enumerators from zero, and
  that number is what is stored into \<^verbatim>\<open>QueuePri\<close>.
\<close>

datatype QueuePriority = IndexFile | LoadShards

fun QueuePriority_val :: "QueuePriority \<Rightarrow> 32 word" where
  "QueuePriority_val IndexFile = 0"
| "QueuePriority_val LoadShards = 1"

text \<open>
  Replacing the action and the thread priority of a task, its queue priority kept: the
  two members \<^verbatim>\<open>operator<\<close> does not read.
\<close>

definition relabel :: "('f Task \<Rightarrow> 'f) \<Rightarrow> ('f Task \<Rightarrow> ThreadPriority) \<Rightarrow> 'f Task \<Rightarrow> 'f Task" where
  "relabel f p T = T\<lparr>Run := f T, ThreadPri := p T\<rparr>"

section \<open>The queue as a max-heap in a vector\<close>

text \<open>
  The header declares \<^verbatim>\<open>std::vector<Task> Queue; // max-heap\<close>, ordered by the tasks'
  \<^verbatim>\<open>operator<\<close> ("Higher-priority tasks will run first"). The vector is a list; the heap
  is the implicit binary tree of the C++ standard library's heap algorithms, with the
  parent of index \<open>i\<close> at \<open>(i - 1) div 2\<close> and the greatest element at index 0. The
  algorithms take the comparison as a parameter, as \<^verbatim>\<open>std::push_heap\<close> and
  \<^verbatim>\<open>std::pop_heap\<close> do.
\<close>

definition parent :: "nat \<Rightarrow> nat" where
  "parent i = (i - 1) div 2"

definition swap :: "'a list \<Rightarrow> nat \<Rightarrow> nat \<Rightarrow> 'a list" where
  "swap xs i j = xs[i := xs ! j, j := xs ! i]"

text \<open>The element at \<open>i\<close> rises while its parent is smaller.\<close>

function sift_up :: "('a \<Rightarrow> 'a \<Rightarrow> bool) \<Rightarrow> 'a list \<Rightarrow> nat \<Rightarrow> 'a list" where
  "sift_up lt xs i =
     (if 0 < i \<and> i < length xs \<and> lt (xs ! parent i) (xs ! i)
      then sift_up lt (swap xs (parent i) i) (parent i)
      else xs)"
  by pat_completeness auto
termination
  by (relation "measure (\<lambda>(lt, xs, i). i)") (auto simp: parent_def)

text \<open>The index of the greatest among \<open>i\<close> and its children that exist.\<close>

definition largest :: "('a \<Rightarrow> 'a \<Rightarrow> bool) \<Rightarrow> 'a list \<Rightarrow> nat \<Rightarrow> nat" where
  "largest lt xs i =
     (let l = 2 * i + 1; r = 2 * i + 2;
          big = (if l < length xs \<and> lt (xs ! i) (xs ! l) then l else i)
      in if r < length xs \<and> lt (xs ! big) (xs ! r) then r else big)"

text \<open>The element at \<open>i\<close> sinks while a child is greater.\<close>

function sift_down :: "('a \<Rightarrow> 'a \<Rightarrow> bool) \<Rightarrow> 'a list \<Rightarrow> nat \<Rightarrow> 'a list" where
  "sift_down lt xs i =
     (let m = largest lt xs i
      in if m \<noteq> i then sift_down lt (swap xs i m) m else xs)"
  by pat_completeness auto
termination
  by (relation "measure (\<lambda>(lt, xs, i). length xs - i)")
     (auto simp: swap_def largest_def Let_def split: if_splits)

declare sift_up.simps [simp del] sift_down.simps [simp del]

text \<open>
  \<^verbatim>\<open>std::push_heap(first, last)\<close>: the range without its last element is a heap, and the
  last element is inserted into it.
\<close>

definition push_heap :: "('a \<Rightarrow> 'a \<Rightarrow> bool) \<Rightarrow> 'a list \<Rightarrow> 'a list" where
  "push_heap lt xs = sift_up lt xs (length xs - 1)"

text \<open>
  \<^verbatim>\<open>std::pop_heap(first, last)\<close>: the first element goes to the last position, and the
  range before it is made a heap again. The empty range is left as it is.
\<close>

definition pop_heap :: "('a \<Rightarrow> 'a \<Rightarrow> bool) \<Rightarrow> 'a list \<Rightarrow> 'a list" where
  "pop_heap lt xs =
     (if xs = [] then xs
      else sift_down lt (butlast (xs[0 := last xs])) 0 @ [hd xs])"

text \<open>\<^verbatim>\<open>std::is_heap\<close>: no element is greater than its parent.\<close>

definition is_heap :: "('a \<Rightarrow> 'a \<Rightarrow> bool) \<Rightarrow> 'a list \<Rightarrow> bool" where
  "is_heap lt xs = list_all (\<lambda>i. \<not> lt (xs ! parent i) (xs ! i)) [1..<length xs]"

text \<open>
  Adding to a heap vector is \<^verbatim>\<open>push_back\<close> followed by \<^verbatim>\<open>push_heap\<close>; taking the next
  element is \<^verbatim>\<open>pop_heap\<close> followed by \<^verbatim>\<open>back\<close> and \<^verbatim>\<open>pop_back\<close>, and there is nothing
  to take from an empty vector.
\<close>

definition heap_push :: "('a \<Rightarrow> 'a \<Rightarrow> bool) \<Rightarrow> 'a list \<Rightarrow> 'a \<Rightarrow> 'a list" where
  "heap_push lt xs x = push_heap lt (xs @ [x])"

definition heap_pop :: "('a \<Rightarrow> 'a \<Rightarrow> bool) \<Rightarrow> 'a list \<Rightarrow> ('a \<times> 'a list) option" where
  "heap_pop lt xs =
     (if xs = [] then None
      else Some (last (pop_heap lt xs), butlast (pop_heap lt xs)))"

text \<open>
  The states of \<^verbatim>\<open>Queue\<close>: empty at construction, then changed only by adding a task
  and by taking the next one, in any order and any number of times.
\<close>

inductive queue_state :: "'f Task list \<Rightarrow> bool" where
  empty: "queue_state []"
| pushed: "queue_state Q \<Longrightarrow> queue_state (heap_push task_less Q T)"
| popped: "queue_state Q \<Longrightarrow> heap_pop task_less Q = Some (T, Q') \<Longrightarrow> queue_state Q'"

text \<open>
  The order in which the tasks of a queue state are taken when nothing is added in
  between: the next element is taken until none is left.
\<close>

function drain :: "('a \<Rightarrow> 'a \<Rightarrow> bool) \<Rightarrow> 'a list \<Rightarrow> 'a list" where
  "drain lt xs = (case heap_pop lt xs of None \<Rightarrow> [] | Some (t, xs') \<Rightarrow> t # drain lt xs')"
  by pat_completeness auto
termination
proof (relation "measure (\<lambda>(lt, xs). length xs)")
  show "wf (measure (\<lambda>(lt :: 'a \<Rightarrow> 'a \<Rightarrow> bool, xs :: 'a list). length xs))"
    by simp
next
  fix lt :: "'a \<Rightarrow> 'a \<Rightarrow> bool" and xs xs' :: "'a list" and x2 t
  assume pop: "heap_pop lt xs = Some x2" and x2: "(t, xs') = x2"
  have len: "length (sift_down lt ys i) = length ys" for ys i
  proof (induction lt ys i rule: sift_down.induct)
    case (1 lt ys i)
    show ?case
    proof (cases "largest lt ys i = i")
      case True
      then show ?thesis by (subst sift_down.simps) (simp add: Let_def)
    next
      case False
      then have "length (sift_down lt (swap ys i (largest lt ys i)) (largest lt ys i)) =
                 length (swap ys i (largest lt ys i))"
        using 1 by simp
      then show ?thesis using False
        by (subst sift_down.simps) (simp add: Let_def swap_def)
    qed
  qed
  have "xs \<noteq> []" using pop by (auto simp: heap_pop_def)
  then have "length xs' < length xs"
    using pop x2 len by (auto simp: heap_pop_def pop_heap_def)
  then show "((lt, xs'), (lt, xs)) \<in> measure (\<lambda>(lt, xs). length xs)" by simp
qed

declare drain.simps [simp del]

text \<open>
  The invariant of \<open>sift_up\<close>, for a comparison that compares keys: the heap
  condition holds everywhere but between \<open>i\<close> and its parent, and the children of
  \<open>i\<close> are no greater than that parent.
\<close>

definition up_inv :: "('a \<Rightarrow> 'k::linorder) \<Rightarrow> 'a list \<Rightarrow> nat \<Rightarrow> bool" where
  "up_inv key xs i \<longleftrightarrow>
     (\<forall>j. 0 < j \<and> j < length xs \<and> j \<noteq> i \<longrightarrow> key (xs ! j) \<le> key (xs ! parent j)) \<and>
     (\<forall>j. 0 < j \<and> j < length xs \<and> parent j = i \<and> 0 < i \<longrightarrow> key (xs ! j) \<le> key (xs ! parent i))"

text \<open>
  The invariant of \<open>sift_down\<close>: the heap condition holds everywhere but between
  \<open>i\<close> and its children, and those children are no greater than the parent of \<open>i\<close>.
\<close>

definition down_inv :: "('a \<Rightarrow> 'k::linorder) \<Rightarrow> 'a list \<Rightarrow> nat \<Rightarrow> bool" where
  "down_inv key xs i \<longleftrightarrow>
     (\<forall>j. 0 < j \<and> j < length xs \<and> parent j \<noteq> i \<longrightarrow> key (xs ! j) \<le> key (xs ! parent j)) \<and>
     (\<forall>j. 0 < j \<and> j < length xs \<and> parent j = i \<and> 0 < i \<longrightarrow> key (xs ! j) \<le> key (xs ! parent i))"

section \<open>Index arithmetic and the two sifts\<close>

lemma parent_less: "0 < i \<Longrightarrow> parent i < i"
  by (simp add: parent_def)

lemma parent_child: "0 < j \<Longrightarrow> parent j = i \<longleftrightarrow> (j = 2 * i + 1 \<or> j = 2 * i + 2)"
  by (auto simp: parent_def)

lemma is_heap_iff:
  "is_heap lt xs \<longleftrightarrow> (\<forall>j. 0 < j \<and> j < length xs \<longrightarrow> \<not> lt (xs ! parent j) (xs ! j))"
  by (auto simp: is_heap_def list_all_iff)

lemma length_swap [simp]: "length (swap xs i j) = length xs"
  by (simp add: swap_def)

lemma mset_swap_heap [simp]:
  "i < length xs \<Longrightarrow> j < length xs \<Longrightarrow> mset (swap xs i j) = mset xs"
  by (simp add: swap_def mset_swap)

lemma nth_swap:
  "i < length xs \<Longrightarrow> j < length xs \<Longrightarrow> k < length xs \<Longrightarrow>
   swap xs i j ! k = (if k = j then xs ! i else if k = i then xs ! j else xs ! k)"
  by (simp add: swap_def nth_list_update)

lemma swap_map:
  "i < length xs \<Longrightarrow> j < length xs \<Longrightarrow> swap (map g xs) i j = map g (swap xs i j)"
  by (simp add: swap_def map_update)

lemma sift_up_stop:
  "\<not> (0 < i \<and> i < length xs \<and> lt (xs ! parent i) (xs ! i)) \<Longrightarrow> sift_up lt xs i = xs"
  by (subst sift_up.simps) auto

lemma sift_up_go:
  "0 < i \<and> i < length xs \<and> lt (xs ! parent i) (xs ! i) \<Longrightarrow>
   sift_up lt xs i = sift_up lt (swap xs (parent i) i) (parent i)"
  by (subst sift_up.simps) simp

lemma length_sift_up [simp]: "length (sift_up lt xs i) = length xs"
  by (induction lt xs i rule: sift_up.induct) (subst sift_up.simps, simp)

lemma mset_sift_up [simp]: "mset (sift_up lt xs i) = mset xs"
proof (induction lt xs i rule: sift_up.induct)
  case (1 lt xs i)
  show ?case
  proof (cases "0 < i \<and> i < length xs \<and> lt (xs ! parent i) (xs ! i)")
    case True
    then have "parent i < length xs" using parent_less [of i] by simp
    with True 1 show ?thesis by (simp add: sift_up_go)
  next
    case False
    then have "sift_up lt xs i = xs"
      by (rule sift_up_stop [where i = i and xs = xs and lt = lt])
    then show ?thesis by simp
  qed
qed

lemma up_inv_step:
  assumes inv: "up_inv key xs i" and i: "0 < i" "i < length xs"
    and lt: "key (xs ! parent i) < key (xs ! i)"
  shows "up_inv key (swap xs (parent i) i) (parent i)"
proof -
  let ?p = "parent i"
  have p: "?p < i" "?p < length xs" using i parent_less [of i] by auto
  have A: "key (swap xs ?p i ! j) \<le> key (swap xs ?p i ! parent j)"
    if j: "0 < j" "j < length xs" "j \<noteq> ?p" for j
  proof -
    have pj: "parent j < j" "parent j < length xs" using j parent_less [of j] by auto
    show ?thesis
    proof (cases "j = i")
      case True
      then show ?thesis using lt i p by (simp add: nth_swap)
    next
      case False
      then have 1: "key (xs ! j) \<le> key (xs ! parent j)" using inv j by (simp add: up_inv_def)
      show ?thesis
      proof (cases "parent j = i")
        case True
        then have "key (xs ! j) \<le> key (xs ! ?p)" using inv j i by (simp add: up_inv_def)
        then show ?thesis using True False j i p by (simp add: nth_swap)
      next
        case npi: False
        show ?thesis
        proof (cases "parent j = ?p")
          case True
          then show ?thesis using 1 lt False j i p pj by (simp add: nth_swap)
        next
          case False
          then show ?thesis using 1 npi \<open>j \<noteq> i\<close> j i p pj by (simp add: nth_swap)
        qed
      qed
    qed
  qed
  have B: "key (swap xs ?p i ! j) \<le> key (swap xs ?p i ! parent ?p)"
    if j: "0 < j" "j < length xs" "parent j = ?p" "0 < ?p" for j
  proof -
    have pp: "parent ?p < ?p" using j parent_less by blast
    have 2: "key (xs ! ?p) \<le> key (xs ! parent ?p)" using inv j p by (simp add: up_inv_def)
    have jp: "?p < j" using j parent_less [of j] by simp
    show ?thesis
    proof (cases "j = i")
      case True
      then show ?thesis using 2 i p pp by (simp add: nth_swap)
    next
      case False
      then have "key (xs ! j) \<le> key (xs ! ?p)" using inv j by (auto simp: up_inv_def)
      then show ?thesis using 2 False i p pp jp j by (simp add: nth_swap)
    qed
  qed
  show ?thesis unfolding up_inv_def using A B by simp
qed

lemma sift_up_heap:
  "up_inv key xs i \<Longrightarrow> is_heap (\<lambda>a b. key a < key b) (sift_up (\<lambda>a b. key a < key b) xs i)"
proof (induction "\<lambda>a b. key a < key b" xs i rule: sift_up.induct)
  case (1 xs i)
  show ?case
  proof (cases "0 < i \<and> i < length xs \<and> key (xs ! parent i) < key (xs ! i)")
    case True
    then have "up_inv key (swap xs (parent i) i) (parent i)"
      using up_inv_step 1(2) by blast
    then show ?thesis using 1(1) True by (simp add: sift_up_go)
  next
    case False
    have "is_heap (\<lambda>a b. key a < key b) xs"
      unfolding is_heap_iff
    proof (intro allI impI)
      fix j assume j: "0 < j \<and> j < length xs"
      show "\<not> key (xs ! parent j) < key (xs ! j)"
      proof (cases "j = i")
        case True
        then show ?thesis using False j by simp
      next
        case False
        then show ?thesis using 1(2) j by (auto simp: up_inv_def not_less)
      qed
    qed
    moreover have "sift_up (\<lambda>a b. key a < key b) xs i = xs"
      using False
      by (rule sift_up_stop [where i = i and xs = xs and lt = "\<lambda>a b. key a < key b"])
    ultimately show ?thesis by simp
  qed
qed

lemma sift_up_map:
  "\<forall>a b. lt (g a) (g b) = lt a b \<Longrightarrow> sift_up lt (map g xs) i = map g (sift_up lt xs i)"
proof (induction lt xs i rule: sift_up.induct)
  case (1 lt xs i)
  have g: "\<And>a b. lt (g a) (g b) = lt a b" using 1(2) by simp
  show ?case
  proof (cases "0 < i \<and> i < length xs \<and> lt (xs ! parent i) (xs ! i)")
    case True
    then have p: "parent i < length xs" using parent_less [of i] by simp
    have c: "0 < i \<and> i < length (map g xs) \<and> lt (map g xs ! parent i) (map g xs ! i)"
      using True p g by simp
    have e1: "sift_up lt (map g xs) i = sift_up lt (swap (map g xs) (parent i) i) (parent i)"
      using c by (rule sift_up_go [where i = i and xs = "map g xs" and lt = lt])
    have e2: "sift_up lt xs i = sift_up lt (swap xs (parent i) i) (parent i)"
      using True by (rule sift_up_go [where i = i and xs = xs and lt = lt])
    show ?thesis
      using 1(1) [OF True 1(2)] True p by (simp add: e1 e2 swap_map)
  next
    case False
    then have c: "\<not> (0 < i \<and> i < length (map g xs) \<and> lt (map g xs ! parent i) (map g xs ! i))"
      using g parent_less [of i] by auto
    have e1: "sift_up lt (map g xs) i = map g xs"
      using c by (rule sift_up_stop [where i = i and xs = "map g xs" and lt = lt])
    have e2: "sift_up lt xs i = xs"
      using False by (rule sift_up_stop [where i = i and xs = xs and lt = lt])
    show ?thesis by (simp add: e1 e2)
  qed
qed

lemma largest_cases:
  "largest lt xs i = i \<or>
   (largest lt xs i = 2 * i + 1 \<and> 2 * i + 1 < length xs) \<or>
   (largest lt xs i = 2 * i + 2 \<and> 2 * i + 2 < length xs)"
  by (simp add: largest_def Let_def)

lemma largest_ge:
  fixes key :: "'a \<Rightarrow> 'k::linorder"
  shows "key (xs ! i) \<le> key (xs ! largest (\<lambda>a b. key a < key b) xs i)"
    and "2 * i + 1 < length xs \<Longrightarrow>
         key (xs ! (2 * i + 1)) \<le> key (xs ! largest (\<lambda>a b. key a < key b) xs i)"
    and "2 * i + 2 < length xs \<Longrightarrow>
         key (xs ! (2 * i + 2)) \<le> key (xs ! largest (\<lambda>a b. key a < key b) xs i)"
  by (auto simp: largest_def Let_def)

lemma sift_down_stop: "largest lt xs i = i \<Longrightarrow> sift_down lt xs i = xs"
  by (subst sift_down.simps) (simp add: Let_def)

lemma sift_down_go:
  "largest lt xs i \<noteq> i \<Longrightarrow>
   sift_down lt xs i = sift_down lt (swap xs i (largest lt xs i)) (largest lt xs i)"
  by (subst sift_down.simps) (simp add: Let_def)

lemma largest_bound: "largest lt xs i \<noteq> i \<Longrightarrow> largest lt xs i < length xs \<and> i < largest lt xs i"
  using largest_cases [of lt xs i] by auto

lemma length_sift_down [simp]: "length (sift_down lt xs i) = length xs"
proof (induction lt xs i rule: sift_down.induct)
  case (1 lt xs i)
  show ?case
  proof (cases "largest lt xs i = i")
    case True
    then show ?thesis by (simp add: sift_down_stop)
  next
    case False
    then show ?thesis using 1 by (simp add: sift_down_go)
  qed
qed

lemma mset_sift_down [simp]: "mset (sift_down lt xs i) = mset xs"
proof (induction lt xs i rule: sift_down.induct)
  case (1 lt xs i)
  show ?case
  proof (cases "largest lt xs i = i")
    case True
    then show ?thesis by (simp add: sift_down_stop)
  next
    case False
    then have "largest lt xs i < length xs" "i < length xs"
      using largest_bound [OF False] by auto
    then show ?thesis using 1 False by (simp add: sift_down_go)
  qed
qed

lemma down_inv_step:
  fixes key :: "'a \<Rightarrow> 'k::linorder"
  assumes inv: "down_inv key xs i" and m: "m = largest (\<lambda>a b. key a < key b) xs i" "m \<noteq> i"
  shows "down_inv key (swap xs i m) m"
proof -
  have mb: "m < length xs" "i < m" "i < length xs" using largest_bound [of "\<lambda>a b. key a < key b" xs i] m by auto
  have pm: "parent m = i" using largest_cases [of "\<lambda>a b. key a < key b" xs i] m by (auto simp: parent_def)
  have im: "key (xs ! i) \<le> key (xs ! m)" using largest_ge(1) [of key xs i] m by simp
  have sib: "key (xs ! j) \<le> key (xs ! m)" if "0 < j" "j < length xs" "parent j = i" for j
    using that largest_ge(2,3) [of i xs key] m parent_child [of j i] by auto
  have A: "key (swap xs i m ! j) \<le> key (swap xs i m ! parent j)"
    if j: "0 < j" "j < length xs" "parent j \<noteq> m" for j
  proof -
    have pj: "parent j < j" "parent j < length xs" using j parent_less [of j] by auto
    consider "j = m" | "j \<noteq> m" "parent j = i" | "j = i" | "j \<noteq> m" "j \<noteq> i" "parent j \<noteq> i" by blast
    then show ?thesis
    proof cases
      case 1
      then show ?thesis using im pm mb by (simp add: nth_swap)
    next
      case 2
      then have "j \<noteq> i" using pj by auto
      then show ?thesis using 2 sib [of j] j mb by (simp add: nth_swap)
    next
      case 3
      then have "0 < i" using j by simp
      then have "key (xs ! m) \<le> key (xs ! parent i)" using inv pm mb by (auto simp: down_inv_def)
      moreover have "parent i \<noteq> m" "parent i \<noteq> i" using pj 3 mb by auto
      ultimately show ?thesis using 3 mb pj by (simp add: nth_swap)
    next
      case 4
      then have "key (xs ! j) \<le> key (xs ! parent j)" using inv j by (auto simp: down_inv_def)
      then show ?thesis using 4 j mb pj by (simp add: nth_swap)
    qed
  qed
  have B: "key (swap xs i m ! j) \<le> key (swap xs i m ! parent m)"
    if j: "0 < j" "j < length xs" "parent j = m" for j
  proof -
    have "m < j" using j parent_less [of j] by simp
    moreover have "key (xs ! j) \<le> key (xs ! m)" using inv j mb by (auto simp: down_inv_def)
    ultimately show ?thesis using pm mb j by (simp add: nth_swap)
  qed
  show ?thesis unfolding down_inv_def using A B by simp
qed

lemma sift_down_heap:
  fixes key :: "'a \<Rightarrow> 'k::linorder"
  shows "down_inv key xs i \<Longrightarrow> is_heap (\<lambda>a b. key a < key b) (sift_down (\<lambda>a b. key a < key b) xs i)"
proof (induction "\<lambda>a b. key a < key b" xs i rule: sift_down.induct)
  case (1 xs i)
  let ?lt = "\<lambda>a b. key a < key b"
  show ?case
  proof (cases "largest ?lt xs i = i")
    case True
    have "is_heap ?lt xs"
      unfolding is_heap_iff
    proof (intro allI impI)
      fix j assume j: "0 < j \<and> j < length xs"
      show "\<not> key (xs ! parent j) < key (xs ! j)"
      proof (cases "parent j = i")
        case False
        then show ?thesis using 1(2) j by (auto simp: down_inv_def not_less)
      next
        case pj: True
        then have "key (xs ! j) \<le> key (xs ! i)"
          using largest_ge(2,3) [of i xs key] True parent_child [of j i] j by auto
        then show ?thesis using pj by (simp add: not_less)
      qed
    qed
    then show ?thesis using True by (simp add: sift_down_stop)
  next
    case False
    then have "down_inv key (swap xs i (largest ?lt xs i)) (largest ?lt xs i)"
      using down_inv_step [OF 1(2)] by blast
    then show ?thesis using 1(1) False by (simp add: sift_down_go)
  qed
qed

lemma heap_top_max:
  fixes key :: "'a \<Rightarrow> 'k::linorder"
  assumes "is_heap (\<lambda>a b. key a < key b) xs"
  shows "i < length xs \<Longrightarrow> key (xs ! i) \<le> key (xs ! 0)"
proof (induction i rule: less_induct)
  case (less i)
  show ?case
  proof (cases "i = 0")
    case True
    then show ?thesis by simp
  next
    case False
    then have "key (xs ! i) \<le> key (xs ! parent i)"
      using assms less.prems by (auto simp: is_heap_iff not_less)
    moreover have "key (xs ! parent i) \<le> key (xs ! 0)"
      using less.IH [of "parent i"] parent_less [of i] False less.prems by simp
    ultimately show ?thesis by simp
  qed
qed

lemma largest_map:
  assumes g: "\<And>a b. lt (g a) (g b) = lt a b"
  shows "largest lt (map g xs) i = largest lt xs i"
proof (cases "i < length xs")
  case True
  then show ?thesis using g by (auto simp: largest_def Let_def)
next
  case False
  then show ?thesis by (simp add: largest_def Let_def)
qed

lemma sift_down_map:
  "\<forall>a b. lt (g a) (g b) = lt a b \<Longrightarrow> sift_down lt (map g xs) i = map g (sift_down lt xs i)"
proof (induction lt xs i rule: sift_down.induct)
  case (1 lt xs i)
  have g: "\<And>a b. lt (g a) (g b) = lt a b" using 1(2) by simp
  have L: "largest lt (map g xs) i = largest lt xs i" using largest_map [of lt g] g by simp
  show ?case
  proof (cases "largest lt xs i = i")
    case True
    then show ?thesis using L by (simp add: sift_down_stop)
  next
    case False
    then have b: "largest lt xs i < length xs" "i < length xs"
      using largest_bound [OF False] by auto
    have "sift_down lt (map g (swap xs i (largest lt xs i))) (largest lt xs i) =
          map g (sift_down lt (swap xs i (largest lt xs i)) (largest lt xs i))"
      using 1(1) [OF refl False 1(2)] .
    then show ?thesis using False L b by (simp add: sift_down_go swap_map)
  qed
qed

section \<open>Adding and taking keep the heap, and the greatest element is taken\<close>

lemma task_less_key: "task_less = (\<lambda>a b. QueuePri a < QueuePri b)"
  by (intro ext) (simp add: task_less_def)

lemma push_heap_is_heap:
  fixes key :: "'a \<Rightarrow> 'k::linorder"
  assumes "is_heap (\<lambda>a b. key a < key b) xs"
  shows "is_heap (\<lambda>a b. key a < key b) (heap_push (\<lambda>a b. key a < key b) xs x)"
proof -
  have "up_inv key (xs @ [x]) (length xs)"
    unfolding up_inv_def
  proof (intro conjI allI impI)
    fix j assume j: "0 < j \<and> j < length (xs @ [x]) \<and> j \<noteq> length xs"
    then have "j < length xs" "parent j < length xs" using parent_less [of j] by auto
    then show "key ((xs @ [x]) ! j) \<le> key ((xs @ [x]) ! parent j)"
      using assms j by (auto simp: is_heap_iff nth_append not_less)
  next
    fix j assume j: "0 < j \<and> j < length (xs @ [x]) \<and> parent j = length xs \<and> 0 < length xs"
    then have False using parent_less [of j] by auto
    then show "key ((xs @ [x]) ! j) \<le> key ((xs @ [x]) ! parent (length xs))" ..
  qed
  then show ?thesis
    using sift_up_heap [of key "xs @ [x]" "length xs"] by (simp add: heap_push_def push_heap_def)
qed

lemma set_heap_push [simp]: "set (heap_push lt xs x) = insert x (set xs)"
proof -
  have "mset (heap_push lt xs x) = add_mset x (mset xs)"
    by (simp add: heap_push_def push_heap_def)
  then have "set_mset (mset (heap_push lt xs x)) = set_mset (add_mset x (mset xs))" by simp
  then show ?thesis by simp
qed

lemma pop_heap_snoc:
  "xs \<noteq> [] \<Longrightarrow> pop_heap lt xs = sift_down lt (butlast (xs[0 := last xs])) 0 @ [hd xs]"
  by (simp add: pop_heap_def)

lemma heap_pop_Some:
  "xs \<noteq> [] \<Longrightarrow> heap_pop lt xs = Some (xs ! 0, sift_down lt (butlast (xs[0 := last xs])) 0)"
  by (simp add: heap_pop_def pop_heap_def hd_conv_nth)

lemma heap_pop_None [simp]: "heap_pop lt [] = None"
  by (simp add: heap_pop_def)

lemma mset_butlast_upd:
  "xs \<noteq> [] \<Longrightarrow> add_mset (xs ! 0) (mset (butlast (xs[0 := last xs]))) = mset xs"
proof (cases xs)
  case Nil
  assume "xs \<noteq> []" with Nil show ?thesis by simp
next
  case (Cons x ys)
  show ?thesis
  proof (cases ys rule: rev_cases)
    case Nil
    with Cons show ?thesis by simp
  next
    case (snoc zs z)
    with Cons show ?thesis by simp
  qed
qed

lemma heap_pop_mset:
  "heap_pop lt xs = Some (t, xs') \<Longrightarrow> mset xs = add_mset t (mset xs')"
  by (cases "xs = []") (auto simp: heap_pop_Some mset_butlast_upd)

lemma heap_pop_length:
  "heap_pop lt xs = Some (t, xs') \<Longrightarrow> length xs' < length xs"
  by (cases "xs = []") (auto simp: heap_pop_Some)

lemma heap_pop_set:
  "heap_pop lt xs = Some (t, xs') \<Longrightarrow> set xs = insert t (set xs')"
proof -
  assume "heap_pop lt xs = Some (t, xs')"
  then have "set_mset (mset xs) = set_mset (add_mset t (mset xs'))"
    using heap_pop_mset by metis
  then show ?thesis by simp
qed

lemma heap_pop_is_heap:
  fixes key :: "'a \<Rightarrow> 'k::linorder"
  assumes h: "is_heap (\<lambda>a b. key a < key b) xs"
    and p: "heap_pop (\<lambda>a b. key a < key b) xs = Some (t, xs')"
  shows "is_heap (\<lambda>a b. key a < key b) xs'"
proof -
  have ne: "xs \<noteq> []" using p by auto
  let ?ys = "butlast (xs[0 := last xs])"
  have "down_inv key ?ys 0"
    unfolding down_inv_def
  proof (intro conjI allI impI)
    fix j assume j: "0 < j \<and> j < length ?ys \<and> parent j \<noteq> 0"
    then have "j < length xs" "parent j < length ?ys" "parent j < length xs"
      using parent_less [of j] by auto
    then show "key (?ys ! j) \<le> key (?ys ! parent j)"
      using h j by (auto simp: is_heap_iff nth_butlast not_less)
  qed simp
  then have "is_heap (\<lambda>a b. key a < key b) (sift_down (\<lambda>a b. key a < key b) ?ys 0)"
    by (rule sift_down_heap)
  then show ?thesis using p ne by (simp add: heap_pop_Some)
qed

lemma heap_pop_max:
  fixes key :: "'a \<Rightarrow> 'k::linorder"
  assumes h: "is_heap (\<lambda>a b. key a < key b) xs"
    and p: "heap_pop (\<lambda>a b. key a < key b) xs = Some (t, xs')"
    and x: "x \<in> set xs"
  shows "key x \<le> key t"
proof -
  have ne: "xs \<noteq> []" using p by auto
  then have t: "t = xs ! 0" using p by (simp add: heap_pop_Some)
  obtain i where "i < length xs" "x = xs ! i" using x by (auto simp: in_set_conv_nth)
  then show ?thesis using heap_top_max [OF h, of i] t by simp
qed

lemma queue_state_is_heap: "queue_state Q \<Longrightarrow> is_heap task_less Q"
proof (induction rule: queue_state.induct)
  case empty
  show ?case by (simp add: is_heap_def)
next
  case (pushed Q T)
  then show ?case using push_heap_is_heap [of QueuePri Q T] by (simp add: task_less_key)
next
  case (popped Q T Q')
  then show ?case using heap_pop_is_heap [of QueuePri Q T Q'] by (simp add: task_less_key)
qed

lemma heap_push_map:
  assumes g: "\<And>a b. lt (g a) (g b) = lt a b"
  shows "heap_push lt (map g xs) (g x) = map g (heap_push lt xs x)"
  using sift_up_map [of lt g "xs @ [x]" "length xs"] g
  by (simp add: heap_push_def push_heap_def)

lemma heap_pop_map:
  assumes g: "\<And>a b. lt (g a) (g b) = lt a b"
  shows "heap_pop lt (map g xs) = map_option (\<lambda>(t, xs'). (g t, map g xs')) (heap_pop lt xs)"
proof (cases "xs = []")
  case True
  then show ?thesis by simp
next
  case False
  have "butlast ((map g xs)[0 := last (map g xs)]) = map g (butlast (xs[0 := last xs]))"
    using False by (simp add: last_map map_update map_butlast)
  then show ?thesis
    using False sift_down_map [of lt g "butlast (xs[0 := last xs])" 0] g
    by (simp add: heap_pop_Some)
qed

lemma task_less_relabel: "task_less (relabel f p T) (relabel f' p' U) = task_less T U"
  by (simp add: task_less_def relabel_def)

section \<open>Taking until the queue is empty\<close>

lemma drain_sorted:
  fixes key :: "'a \<Rightarrow> 'k::linorder"
  shows "is_heap (\<lambda>a b. key a < key b) xs \<Longrightarrow>
    sorted_wrt (\<lambda>a b. key b \<le> key a) (drain (\<lambda>a b. key a < key b) xs) \<and>
    mset (drain (\<lambda>a b. key a < key b) xs) = mset xs"
proof (induction "\<lambda>a b. key a < key b" xs rule: drain.induct)
  case (1 xs)
  let ?lt = "\<lambda>a b. key a < key b"
  show ?case
  proof (cases "heap_pop ?lt xs")
    case None
    then have "xs = []" by (auto simp: heap_pop_def split: if_splits)
    then show ?thesis by (subst drain.simps, subst (2) drain.simps) simp
  next
    case (Some p)
    obtain t xs' where p: "p = (t, xs')" by (cases p)
    have pop: "heap_pop ?lt xs = Some (t, xs')" using Some p by simp
    have h': "is_heap ?lt xs'" using heap_pop_is_heap [OF 1(2) pop] .
    have IH: "sorted_wrt (\<lambda>a b. key b \<le> key a) (drain ?lt xs')"
      "mset (drain ?lt xs') = mset xs'"
      using 1(1) [OF pop refl h'] by auto
    have d: "drain ?lt xs = t # drain ?lt xs'"
      by (subst drain.simps) (simp add: pop)
    have "set (drain ?lt xs') = set xs'" using IH(2) by (metis set_mset_mset)
    then have "\<forall>y\<in>set (drain ?lt xs'). key y \<le> key t"
      using heap_pop_max [OF 1(2) pop] heap_pop_set [OF pop] by auto
    then show ?thesis using IH d heap_pop_mset [OF pop] by simp
  qed
qed

lemma sorted_wrt_before:
  assumes s: "sorted_wrt R xs" and a: "a \<in> set xs" and b: "b \<in> set xs"
    and nR: "\<not> R b a" and ne: "a \<noteq> b"
  shows "\<exists>us vs ws. xs = us @ a # vs @ b # ws"
proof -
  obtain us ws' where xs: "xs = us @ b # ws'" using b by (auto dest: split_list)
  have "a \<notin> set ws'" using s nR by (auto simp: xs sorted_wrt_append)
  then have "a \<in> set us" using a ne by (auto simp: xs)
  then obtain u1 u2 where "us = u1 @ a # u2" by (auto dest: split_list)
  then show ?thesis using xs by auto
qed

section \<open>Priority order of the two kinds of task\<close>

text \<open>
  Claim C3. In every state of the queue that holds a task of priority \<open>LoadShards\<close>
  and a task of priority \<open>IndexFile\<close>, whatever the order in which tasks were added
  and taken before: the vector is a max-heap for \<open>task_less\<close>, the task taken next is
  its first element and is not of priority \<open>IndexFile\<close>, the \<open>IndexFile\<close> task
  stays queued, and when the queue is emptied the \<open>LoadShards\<close> task is taken before
  the \<open>IndexFile\<close> task.
\<close>

theorem LoadShards_popped_before_IndexFile:
  assumes Q: "queue_state Q"
    and a: "a \<in> set Q" "QueuePri a = QueuePriority_val LoadShards"
    and b: "b \<in> set Q" "QueuePri b = QueuePriority_val IndexFile"
  shows "is_heap task_less Q \<and>
         (\<exists>t Q'. heap_pop task_less Q = Some (t, Q') \<and> t = hd Q \<and>
            QueuePri t \<noteq> QueuePriority_val IndexFile \<and> b \<in> set Q' \<and> queue_state Q') \<and>
         (\<exists>us vs ws. drain task_less Q = us @ a # vs @ b # ws)"
proof -
  have h: "is_heap (\<lambda>a b. QueuePri a < QueuePri b) Q"
    using queue_state_is_heap [OF Q] by (simp add: task_less_key)
  have ne: "Q \<noteq> []" using a by auto
  then obtain t Q' where pop: "heap_pop (\<lambda>a b. QueuePri a < QueuePri b) Q = Some (t, Q')"
    by (auto simp: heap_pop_Some)
  have hd: "t = hd Q" using pop ne by (simp add: heap_pop_Some hd_conv_nth)
  have "QueuePri a \<le> QueuePri t" using heap_pop_max [OF h pop a(1)] .
  then have t: "QueuePri t \<noteq> 0" using a(2) by auto
  then have "b \<noteq> t" using b(2) by auto
  then have bQ: "b \<in> set Q'" using heap_pop_set [OF pop] b(1) by auto
  have pop': "heap_pop task_less Q = Some (t, Q')" using pop by (simp add: task_less_key)
  have "queue_state Q'" using Q pop' by (rule queue_state.popped)
  then have 1: "\<exists>t Q'. heap_pop task_less Q = Some (t, Q') \<and> t = hd Q \<and>
            QueuePri t \<noteq> QueuePriority_val IndexFile \<and> b \<in> set Q' \<and> queue_state Q'"
    using pop' hd t bQ by auto
  have s: "sorted_wrt (\<lambda>a b. QueuePri b \<le> QueuePri a) (drain task_less Q)"
    and m: "mset (drain task_less Q) = mset Q"
    using drain_sorted [OF h] by (auto simp: task_less_key)
  have "set (drain task_less Q) = set Q" using m by (metis set_mset_mset)
  moreover have "\<not> QueuePri a \<le> QueuePri b" using a(2) b(2) by simp
  moreover have "a \<noteq> b" using a(2) b(2) by auto
  ultimately have 2: "\<exists>us vs ws. drain task_less Q = us @ a # vs @ b # ws"
    using sorted_wrt_before [OF s, of a b] a(1) b(1) by simp
  show ?thesis using queue_state_is_heap [OF Q] 1 2 by blast
qed

text \<open>
  The theorem at a queue to which the \<open>IndexFile\<close> task was added first and the
  \<open>LoadShards\<close> task second.
\<close>

theorem LoadShards_popped_before_IndexFile_witness:
  "queue_state
     (heap_push task_less (heap_push task_less [] (mkTask ''indexFile''))
        ((mkTask ''loadShards'')\<lparr>QueuePri := QueuePriority_val LoadShards\<rparr>)) \<and>
   (\<exists>t Q'. heap_pop task_less
              (heap_push task_less (heap_push task_less [] (mkTask ''indexFile''))
                 ((mkTask ''loadShards'')\<lparr>QueuePri := QueuePriority_val LoadShards\<rparr>)) =
              Some (t, Q') \<and>
            QueuePri t \<noteq> QueuePriority_val IndexFile \<and> mkTask ''indexFile'' \<in> set Q') \<and>
   (\<exists>us vs ws.
      drain task_less
        (heap_push task_less (heap_push task_less [] (mkTask ''indexFile''))
           ((mkTask ''loadShards'')\<lparr>QueuePri := QueuePriority_val LoadShards\<rparr>)) =
      us @ (mkTask ''loadShards'')\<lparr>QueuePri := QueuePriority_val LoadShards\<rparr> # vs @
        mkTask ''indexFile'' # ws)"
proof -
  let ?a = "(mkTask ''loadShards'')\<lparr>QueuePri := QueuePriority_val LoadShards\<rparr>"
  let ?b = "mkTask ''indexFile'' :: string Task"
  let ?Q = "heap_push task_less (heap_push task_less [] ?b) ?a"
  have q: "queue_state ?Q" by (intro queue_state.pushed queue_state.empty)
  have a: "?a \<in> set ?Q" by simp
  have b: "?b \<in> set ?Q" by simp
  have pa: "QueuePri ?a = QueuePriority_val LoadShards" by simp
  have pb: "QueuePri ?b = QueuePriority_val IndexFile" by (simp add: mkTask_def)
  show ?thesis
    using LoadShards_popped_before_IndexFile [OF q a pa b pb] q by blast
qed

section \<open>Default priority of a task, and what the order reads\<close>

text \<open>
  Claim C10. A task constructed from an action alone has \<open>QueuePri = 0\<close>, the number
  of \<open>IndexFile\<close>, which is the least of the queue priorities, and thread priority
  \<open>Background\<close>. The order \<open>task_less\<close> reads \<open>QueuePri\<close> only: replacing the action
  and the thread priority of tasks changes no comparison, so adding to the queue and
  taking from it act on the replaced tasks exactly as on the original ones, position by
  position. Of two queued tasks of different queue priority, the lower one is never the
  one taken next.
\<close>

theorem Task_defaults_and_ordering:
  fixes T U :: "'f Task" and Q :: "'f Task list"
  shows "QueuePri (mkTask F) = 0 \<and>
         QueuePri (mkTask F) = QueuePriority_val IndexFile \<and>
         (\<forall>P. QueuePriority_val IndexFile \<le> QueuePriority_val P) \<and>
         ThreadPri (mkTask F) = Background \<and>
         task_less T U = (QueuePri T < QueuePri U) \<and>
         task_less (relabel f p T) (relabel g q U) = task_less T U \<and>
         heap_push task_less (map (relabel f p) Q) (relabel f p T) =
           map (relabel f p) (heap_push task_less Q T) \<and>
         heap_pop task_less (map (relabel f p) Q) =
           map_option (\<lambda>(X, Q'). (relabel f p X, map (relabel f p) Q')) (heap_pop task_less Q) \<and>
         (queue_state Q \<longrightarrow> T \<in> set Q \<longrightarrow> U \<in> set Q \<longrightarrow> QueuePri T < QueuePri U \<longrightarrow>
            (\<exists>X Q'. heap_pop task_less Q = Some (X, Q') \<and> X \<noteq> T \<and> T \<in> set Q'))"
proof -
  have 1: "heap_push task_less (map (relabel f p) Q) (relabel f p T) =
           map (relabel f p) (heap_push task_less Q T)"
    by (rule heap_push_map) (rule task_less_relabel)
  have 2: "heap_pop task_less (map (relabel f p) Q) =
           map_option (\<lambda>(X, Q'). (relabel f p X, map (relabel f p) Q')) (heap_pop task_less Q)"
    by (rule heap_pop_map) (rule task_less_relabel)
  have 3: "\<exists>X Q'. heap_pop task_less Q = Some (X, Q') \<and> X \<noteq> T \<and> T \<in> set Q'"
    if Q: "queue_state Q" and T: "T \<in> set Q" and U: "U \<in> set Q"
      and lt: "QueuePri T < QueuePri U"
  proof -
    have h: "is_heap (\<lambda>a b. QueuePri a < QueuePri b) Q"
      using queue_state_is_heap [OF Q] by (simp add: task_less_key)
    have "Q \<noteq> []" using T by auto
    then obtain X Q' where pop: "heap_pop (\<lambda>a b. QueuePri a < QueuePri b) Q = Some (X, Q')"
      by (auto simp: heap_pop_Some)
    have "QueuePri U \<le> QueuePri X" using heap_pop_max [OF h pop U] .
    then have "X \<noteq> T" using lt by auto
    moreover from this have "T \<in> set Q'" using heap_pop_set [OF pop] T by auto
    ultimately show ?thesis using pop by (auto simp: task_less_key)
  qed
  have 4: "QueuePriority_val IndexFile \<le> QueuePriority_val P" for P
    by (cases P) simp_all
  show ?thesis using 1 2 3 4 by (simp add: mkTask_def task_less_def relabel_def)
qed

theorem Task_defaults_and_ordering_witness:
  "queue_state
     (heap_push task_less
        (heap_push task_less
           (heap_push task_less [] ((mkTask (2::nat))\<lparr>QueuePri := 1\<rparr>)) (mkTask 1))
        (mkTask 3)) \<and>
   mkTask 1 \<in> set
     (heap_push task_less
        (heap_push task_less
           (heap_push task_less [] ((mkTask (2::nat))\<lparr>QueuePri := 1\<rparr>)) (mkTask 1))
        (mkTask 3)) \<and>
   QueuePri (mkTask (1::nat)) < QueuePri ((mkTask (2::nat))\<lparr>QueuePri := 1\<rparr>) \<and>
   (\<exists>X Q'. heap_pop task_less
      (heap_push task_less
        (heap_push task_less
           (heap_push task_less [] ((mkTask (2::nat))\<lparr>QueuePri := 1\<rparr>)) (mkTask 1))
        (mkTask 3)) = Some (X, Q') \<and> X \<noteq> mkTask 1 \<and> mkTask 1 \<in> set Q')"
proof -
  let ?T = "mkTask (1::nat)"
  let ?U = "(mkTask (2::nat))\<lparr>QueuePri := 1\<rparr>"
  let ?Q = "heap_push task_less (heap_push task_less (heap_push task_less [] ?U) ?T) (mkTask 3)"
  have q: "queue_state ?Q" by (intro queue_state.pushed queue_state.empty)
  have t: "?T \<in> set ?Q" by simp
  have u: "?U \<in> set ?Q" by simp
  have lt: "QueuePri ?T < QueuePri ?U" by (simp add: mkTask_def)
  show ?thesis
    using Task_defaults_and_ordering
      [where Q = ?Q and T = ?T and U = ?U and F = "0::nat" and f = Run and p = ThreadPri
         and g = Run and q = ThreadPri]
      q t u lt
    by blast
qed

end
